theory Spec2Isabelle
  imports Complex_Main
begin

section \<open>The circuit breaker of profuse.ts\<close>

text \<open>
  The class \<open>CircuitBreaker\<close> of \<open>src/profuse.ts\<close> as a record and its methods as
  functions from a breaker to the updated breaker. Conventions of the embedding:
  \<^item> every read of \<open>Date.now()\<close> is a parameter (milliseconds, an integer) of the
    method that makes it: one for \<open>trip\<close>, one for \<open>check\<close>, and two for the start of
    a call, which may run \<open>trip\<close> (in \<open>addConcurrent\<close>) and then runs \<open>check\<close>;
  \<^item> \<open>window\<close>, \<open>maxConcurrent\<close>, \<open>checkInterval\<close>, \<open>concurrent\<close> and
    \<open>lastCheck\<close> are integers; \<open>tripRate\<close> and a success rate are exact rationals
    (the quotient of two integers is compared as the exact fraction; the rounding of
    IEEE doubles is not part of the model);
  \<^item> an entry of \<open>history\<close> is an integer or \<open>NaN\<close>, which JavaScript writes there
    when \<open>addResult\<close> runs on an empty array; \<open>score / count\<close> with a zero or
    \<open>NaN\<close> divisor is a value of its own, not an exception;
  \<^item> the optional \<open>logger\<close> only receives messages and is left out, and so is
    \<open>toString\<close>, which only the logger and the tests read.
\<close>

subsection \<open>JavaScript numbers as far as the breaker uses them\<close>

datatype number = Finite int | NaN

fun js_lt :: "number \<Rightarrow> number \<Rightarrow> bool" where
  "js_lt (Finite a) (Finite b) = (a < b)"
| "js_lt _ _ = False"

fun js_le :: "number \<Rightarrow> number \<Rightarrow> bool" where
  "js_le (Finite a) (Finite b) = (a \<le> b)"
| "js_le _ _ = False"

fun js_add :: "number \<Rightarrow> number \<Rightarrow> number" where
  "js_add (Finite a) (Finite b) = Finite (a + b)"
| "js_add _ _ = NaN"

fun js_neg :: "number \<Rightarrow> number" where
  "js_neg (Finite a) = Finite (- a)"
| "js_neg NaN = NaN"

text \<open>The value of \<open>score / count\<close>: a fraction, or what IEEE division gives at a zero
  divisor (\<open>0/0\<close> is \<open>NaN\<close>, \<open>x/0\<close> is an infinity) and at a \<open>NaN\<close> operand.\<close>

datatype quotient = Ratio rat | Undefined | PosInfinity | NegInfinity

fun js_div :: "number \<Rightarrow> number \<Rightarrow> quotient" where
  "js_div (Finite s) (Finite c) =
     (if c = 0 then (if s = 0 then Undefined else if 0 < s then PosInfinity else NegInfinity)
      else Ratio (of_int s / of_int c))"
| "js_div _ _ = Undefined"

text \<open>\<open>q < t\<close> for a finite \<open>t\<close>; every comparison with \<open>NaN\<close> is false.\<close>

fun quotient_lt :: "quotient \<Rightarrow> rat \<Rightarrow> bool" where
  "quotient_lt (Ratio q) t = (q < t)"
| "quotient_lt Undefined t = False"
| "quotient_lt PosInfinity t = False"
| "quotient_lt NegInfinity t = True"

subsection \<open>State\<close>

datatype Mode = Normal | Tripped | Probation

record CircuitBreakerOptions =
  opt_maxConcurrent :: "int option"
  opt_tripRate :: "rat option"
  opt_window :: "int option"
  opt_checkInterval :: "int option"

record CircuitBreaker =
  name :: string
  mode :: Mode
  checkInterval :: int
  lastCheck :: int
  concurrent :: int
  maxConcurrent :: int
  history :: "number list"
  window :: int
  tripRate :: rat

definition DEFAULT_CHECK_INTERVAL :: int where
  "DEFAULT_CHECK_INTERVAL = 30000"

definition DEFAULT_MAX_CONCURRENT_REQUESTS :: int where
  "DEFAULT_MAX_CONCURRENT_REQUESTS = 10 ^ 6"

definition DEFAULT_TRIP_RATE :: rat where
  "DEFAULT_TRIP_RATE = 9 / 10"

definition DEFAULT_WINDOW :: int where
  "DEFAULT_WINDOW = 100"

subsection \<open>clear, the constructor, successRate, trip\<close>

definition clear :: "CircuitBreaker \<Rightarrow> CircuitBreaker" where
  "clear b = b\<lparr>history := [Finite (window b)], mode := Normal\<rparr>"

text \<open>The constructor: the field initialisers, then each option that is present, then
  \<open>clear\<close>. It has no other statement; in particular it checks no option.\<close>

definition new_CircuitBreaker :: "string \<Rightarrow> CircuitBreakerOptions \<Rightarrow> CircuitBreaker" where
  "new_CircuitBreaker nm options =
     clear \<lparr> name = nm,
             mode = Normal,
             checkInterval =
               (case opt_checkInterval options of None \<Rightarrow> DEFAULT_CHECK_INTERVAL | Some v \<Rightarrow> v),
             lastCheck = 0,
             concurrent = 0,
             maxConcurrent =
               (case opt_maxConcurrent options of
                  None \<Rightarrow> DEFAULT_MAX_CONCURRENT_REQUESTS | Some v \<Rightarrow> v),
             history = [],
             window = (case opt_window options of None \<Rightarrow> DEFAULT_WINDOW | Some v \<Rightarrow> v),
             tripRate = (case opt_tripRate options of None \<Rightarrow> DEFAULT_TRIP_RATE | Some v \<Rightarrow> v) \<rparr>"

text \<open>The loop of the getter \<open>successRate\<close>: the condition \<open>count <= this.window\<close> is
  tested before each element; the accumulator is the pair \<open>(score, count)\<close>.\<close>

fun successRate_loop :: "int \<Rightarrow> number list \<Rightarrow> number \<times> number \<Rightarrow> number \<times> number" where
  "successRate_loop w [] (score, count) = (score, count)"
| "successRate_loop w (h # hs) (score, count) =
     (if js_le count (Finite w) then
        (if js_lt h (Finite 0)
         then successRate_loop w hs (score, js_add count (js_neg h))
         else successRate_loop w hs (js_add score h, js_add count h))
      else (score, count))"

definition successRate :: "CircuitBreaker \<Rightarrow> quotient" where
  "successRate b =
     (case successRate_loop (window b) (history b) (Finite 0, Finite 0) of
        (score, count) \<Rightarrow> js_div score count)"

definition trip :: "int \<Rightarrow> CircuitBreaker \<Rightarrow> CircuitBreaker" where
  "trip now b = b\<lparr>mode := Tripped, lastCheck := now\<rparr>"

subsection \<open>addResult\<close>

text \<open>Lines 89 to 94: the new unit joins the last run or starts a run. On an empty
  array \<open>last\<close> is \<open>undefined\<close>, both comparisons are false and the assignment goes to
  the property \<open>-1\<close>, which is no element: the array stays empty.\<close>

definition record_result :: "int \<Rightarrow> number list \<Rightarrow> number list" where
  "record_result result h =
     (if h = [] then []
      else if (js_lt (Finite 0) (last h) \<and> result < 0) \<or> (js_lt (last h) (Finite 0) \<and> 0 < result)
      then h @ [Finite result]
      else butlast h @ [js_add (last h) (Finite result)])"

text \<open>Lines 97 to 102: the oldest run loses one unit and is shifted out at zero. On an
  empty array \<open>this.history[0]--\<close> stores \<open>NaN\<close> at index 0.\<close>

definition drop_oldest :: "number list \<Rightarrow> number list" where
  "drop_oldest h =
     (let h1 = (case h of
                  [] \<Rightarrow> [NaN]
                | x # xs \<Rightarrow> (if js_lt x (Finite 0) then js_add x (Finite 1) # xs
                             else js_add x (Finite (- 1)) # xs))
      in if hd h1 = Finite 0 then tl h1 else h1)"

definition addResult :: "int \<Rightarrow> int \<Rightarrow> CircuitBreaker \<Rightarrow> CircuitBreaker" where
  "addResult now result b =
     (let b1 = b\<lparr>history := drop_oldest (record_result result (history b))\<rparr>
      in if 0 < result \<and> mode b1 = Probation then b1\<lparr>mode := Normal\<rparr>
         else if result < 0 then
           (if mode b1 = Probation \<or> quotient_lt (successRate b1) (tripRate b1)
            then trip now b1 else b1)
         else b1)"

subsection \<open>The concurrency gate and the admission check\<close>

definition addConcurrent :: "int \<Rightarrow> CircuitBreaker \<Rightarrow> CircuitBreaker" where
  "addConcurrent now b =
     (let b1 = b\<lparr>concurrent := concurrent b + 1\<rparr>
      in if maxConcurrent b1 < concurrent b1 then trip now b1 else b1)"

definition finishedConcurrent :: "CircuitBreaker \<Rightarrow> CircuitBreaker" where
  "finishedConcurrent b = b\<lparr>concurrent := concurrent b - 1\<rparr>"

definition check :: "int \<Rightarrow> CircuitBreaker \<Rightarrow> bool \<times> CircuitBreaker" where
  "check now b =
     (if mode b = Tripped then
        (if lastCheck b + checkInterval b \<le> now then (True, b\<lparr>mode := Probation\<rparr>)
         else (False, b))
      else (True, b))"

subsection \<open>The call wrappers\<close>

text \<open>
  The wrapped operation is code of the caller. It is a function on a state \<open>'w\<close> of the
  caller's world, so that "the operation was not invoked" is "the world is unchanged",
  and it ends in one of three ways:
  \<^item> \<open>Succeeds v\<close>: the promise resolves with \<open>v\<close> (for \<open>doCallback\<close>: the
    continuation is invoked once as \<open>(undefined, v)\<close>);
  \<^item> \<open>Fails e\<close>: the promise rejects with \<open>e\<close> (the continuation is invoked once as
    \<open>(e)\<close>);
  \<^item> \<open>Throws e\<close>: the operation throws \<open>e\<close> synchronously, before it returns a
    promise or invokes the continuation (as the operation of the last test does).
\<close>

datatype error = Error string

datatype 'a behaviour = Succeeds 'a | Fails error | Throws error

type_synonym ('a, 'w) operation = "'w \<Rightarrow> 'a behaviour \<times> 'w"

text \<open>Lines 140 to 144 of \<open>do\<close>: the synchronous part before the operation. \<open>Some e\<close>
  is the rejection thrown at line 143. The clock is read up to twice: \<open>now_trip\<close> is the
  reading of \<open>trip\<close> at line 84, made only when the ceiling is exceeded, and
  \<open>now_check\<close> is the later reading of \<open>check\<close> at line 128, made only in the mode
  Tripped.\<close>

definition do_start :: "int \<Rightarrow> int \<Rightarrow> CircuitBreaker \<Rightarrow> error option \<times> CircuitBreaker" where
  "do_start now_trip now_check b =
     (let b1 = addConcurrent now_trip b;
          (ok, b2) = check now_check b1
      in if \<not> ok
         then (Some (Error (''Circuit breaker tripped: '' @ name b2)), finishedConcurrent b2)
         else (None, b2))"

text \<open>Lines 146 to 155: the \<open>try\<close> block holds the call \<open>f()\<close> and the \<open>await\<close>, so a
  rejection and a synchronous throw both reach the \<open>catch\<close>.\<close>

definition do_settle :: "int \<Rightarrow> 'a behaviour \<Rightarrow> CircuitBreaker \<Rightarrow> (error + 'a) \<times> CircuitBreaker" where
  "do_settle now r b =
     (case r of
        Succeeds v \<Rightarrow> (Inr v, finishedConcurrent (addResult now 1 b))
      | Fails e \<Rightarrow> (Inl e, finishedConcurrent (addResult now (- 1) b))
      | Throws e \<Rightarrow> (Inl e, finishedConcurrent (addResult now (- 1) b)))"

text \<open>One whole call of \<open>do\<close> with nothing else of the breaker running in between:
  started with the clock readings \<open>t0\<close> (of \<open>trip\<close>) and \<open>t0'\<close> (of \<open>check\<close>), settled
  at \<open>t1\<close>.\<close>

definition do_call ::
  "int \<Rightarrow> int \<Rightarrow> int \<Rightarrow> ('a, 'w) operation \<Rightarrow> CircuitBreaker \<times> 'w
     \<Rightarrow> (error + 'a) \<times> CircuitBreaker \<times> 'w" where
  "do_call t0 t0' t1 f s =
     (case s of (b, w) \<Rightarrow>
        (case do_start t0 t0' b of
           (Some e, b1) \<Rightarrow> (Inl e, b1, w)
         | (None, b1) \<Rightarrow>
             (case f w of (r, w1) \<Rightarrow>
                (case do_settle t1 r b1 of (res, b2) \<Rightarrow> (res, b2, w1)))))"

text \<open>\<open>doCallback\<close>: lines 160 to 165 are the same statements as 140 to 144, with the
  rejection handed to the caller's continuation. What the caller sees is either an
  invocation of its continuation or an exception leaving \<open>doCallback\<close>.\<close>

datatype 'a delivery = Continuation "error + 'a" | Exception error

definition doCallback_start :: "int \<Rightarrow> int \<Rightarrow> CircuitBreaker \<Rightarrow> error option \<times> CircuitBreaker" where
  "doCallback_start now_trip now_check b =
     (let b1 = addConcurrent now_trip b;
          (ok, b2) = check now_check b1
      in if \<not> ok
         then (Some (Error (''Circuit breaker tripped: '' @ name b2)), finishedConcurrent b2)
         else (None, b2))"

text \<open>Lines 167 to 177: the continuation handed to the operation. No \<open>try\<close> surrounds
  the call of \<open>f\<close>: when the operation throws, the continuation never runs.\<close>

definition doCallback_settle ::
  "int \<Rightarrow> 'a behaviour \<Rightarrow> CircuitBreaker \<Rightarrow> 'a delivery \<times> CircuitBreaker" where
  "doCallback_settle now r b =
     (case r of
        Fails e \<Rightarrow> (Continuation (Inl e), finishedConcurrent (addResult now (- 1) b))
      | Succeeds v \<Rightarrow> (Continuation (Inr v), finishedConcurrent (addResult now 1 b))
      | Throws e \<Rightarrow> (Exception e, b))"

definition doCallback_call ::
  "int \<Rightarrow> int \<Rightarrow> int \<Rightarrow> ('a, 'w) operation \<Rightarrow> CircuitBreaker \<times> 'w
     \<Rightarrow> 'a delivery \<times> CircuitBreaker \<times> 'w" where
  "doCallback_call t0 t0' t1 f s =
     (case s of (b, w) \<Rightarrow>
        (case doCallback_start t0 t0' b of
           (Some e, b1) \<Rightarrow> (Continuation (Inl e), b1, w)
         | (None, b1) \<Rightarrow>
             (case f w of (r, w1) \<Rightarrow>
                (case doCallback_settle t1 r b1 of (res, b2) \<Rightarrow> (res, b2, w1)))))"

subsection \<open>Interleaved calls\<close>

text \<open>
  Calls overlap: between the start of a call and its outcome any other call may start or
  settle, and the public methods may be called. An execution is a list of events, each
  with the clock readings it makes: \<open>Start\<close> is lines 140 to 144 (the same for both
  wrappers) with the readings of \<open>trip\<close> and of \<open>check\<close>, \<open>Settle\<close> is the recording
  of an outcome (\<open>True\<close> for a success).
\<close>

datatype event = Start int int | Settle int bool | Clear | Trip int | Check int

fun apply_event :: "event \<Rightarrow> CircuitBreaker \<Rightarrow> CircuitBreaker" where
  "apply_event (Start now_trip now_check) b = snd (do_start now_trip now_check b)"
| "apply_event (Settle now ok) b = finishedConcurrent (addResult now (if ok then 1 else - 1) b)"
| "apply_event Clear b = clear b"
| "apply_event (Trip now) b = trip now b"
| "apply_event (Check now) b = snd (check now b)"

fun run :: "event list \<Rightarrow> CircuitBreaker \<Rightarrow> CircuitBreaker" where
  "run [] b = b"
| "run (e # es) b = run es (apply_event e b)"

subsection \<open>The history invariant\<close>

fun is_Finite :: "number \<Rightarrow> bool" where
  "is_Finite (Finite _) = True"
| "is_Finite NaN = False"

fun int_of :: "number \<Rightarrow> int" where
  "int_of (Finite i) = i"
| "int_of NaN = 0"

definition same_sign :: "int \<Rightarrow> int \<Rightarrow> bool" where
  "same_sign x y = ((0 < x \<and> 0 < y) \<or> (x < 0 \<and> y < 0))"

fun alternating :: "int list \<Rightarrow> bool" where
  "alternating (x # y # zs) = (\<not> same_sign x y \<and> alternating (y # zs))"
| "alternating _ = True"

text \<open>Invariants 1 to 3 of the history: integer entries, none zero, no two neighbours
  of the same sign, absolute values summing to \<open>w\<close>.\<close>

definition history_ok :: "int \<Rightarrow> number list \<Rightarrow> bool" where
  "history_ok w h =
     (list_all is_Finite h \<and> list_all (\<lambda>x. int_of x \<noteq> 0) h \<and> alternating (map int_of h)
      \<and> sum_list (map (\<lambda>x. \<bar>int_of x\<bar>) h) = w)"

text \<open>The outcomes a history stands for, oldest first: a run \<open>k\<close> is \<open>\<bar>k\<bar>\<close> copies of
  \<open>True\<close> (success) if \<open>k\<close> is positive, of \<open>False\<close> otherwise.\<close>

definition outcomes :: "number list \<Rightarrow> bool list" where
  "outcomes h = concat (map (\<lambda>x. replicate (nat \<bar>int_of x\<bar>) (0 < int_of x)) h)"

subsection \<open>Concrete breakers and operations used below\<close>

definition no_options :: CircuitBreakerOptions where
  "no_options =
     \<lparr>opt_maxConcurrent = None, opt_tripRate = None, opt_window = None, opt_checkInterval = None\<rparr>"

text \<open>The helpers \<open>fail\<close> and \<open>succeed\<close> of the test "trips after 50% failures": one
  awaited call that starts with the clock readings \<open>r\<close> and \<open>s\<close> and settles at \<open>e\<close>;
  and the breaker of that test.\<close>

definition fail_call :: "int \<Rightarrow> int \<Rightarrow> int \<Rightarrow> event list" where
  "fail_call r s e = [Start r s, Settle e False]"

definition succeed_call :: "int \<Rightarrow> int \<Rightarrow> int \<Rightarrow> event list" where
  "succeed_call r s e = [Start r s, Settle e True]"

definition half_breaker :: "string \<Rightarrow> CircuitBreaker" where
  "half_breaker nm =
     new_CircuitBreaker nm (no_options\<lparr>opt_tripRate := Some (1 / 2), opt_window := Some 5\<rparr>)"

text \<open>That breaker with one call in flight since time 0 and then three failed calls, the
  last of which, settled at time 6, trips it.\<close>

definition tripped_half_breaker :: CircuitBreaker where
  "tripped_half_breaker =
     run (Start 0 0 # fail_call 1 1 2 @ fail_call 3 3 4 @ fail_call 5 5 6) (half_breaker ''test'')"

text \<open>A breaker that allows one call in flight: a first call is admitted at time 0 and
  stays in flight, a second one at time 10 exceeds the ceiling and trips the breaker.\<close>

definition wedged_breaker :: CircuitBreaker where
  "wedged_breaker =
     run [Start 0 0, Start 10 10]
       (new_CircuitBreaker ''db''
          (no_options\<lparr>opt_maxConcurrent := Some 1, opt_checkInterval := Some 50\<rparr>))"

text \<open>A breaker tripped by hand at time 0, as in the test "allows a probation request
  after time has passed"; and the same breaker with its probe call, started at time 50,
  in flight.\<close>

definition tripped_breaker :: CircuitBreaker where
  "tripped_breaker =
     run [Trip 0]
       (new_CircuitBreaker ''test''
          (no_options\<lparr>opt_maxConcurrent := Some 2, opt_checkInterval := Some 50\<rparr>))"

definition probing_breaker :: CircuitBreaker where
  "probing_breaker = run [Start 50 50] tripped_breaker"

text \<open>The same breaker with a second call admitted in Probation: two calls in flight,
  which is its ceiling.\<close>

definition crowded_breaker :: CircuitBreaker where
  "crowded_breaker = run [Start 51 51] probing_breaker"

text \<open>A breaker with \<open>checkInterval\<close> of one millisecond that allows one call in flight,
  and has one in flight since time 0.\<close>

definition tight_breaker :: CircuitBreaker where
  "tight_breaker =
     run [Start 0 0]
       (new_CircuitBreaker ''db''
          (no_options\<lparr>opt_maxConcurrent := Some 1, opt_checkInterval := Some 1\<rparr>))"

definition zero_window_breaker :: CircuitBreaker where
  "zero_window_breaker = new_CircuitBreaker ''test'' (no_options\<lparr>opt_window := Some 0\<rparr>)"

text \<open>An operation that throws before it returns a promise or invokes its continuation,
  as the operation of the test "drops back to tripped if an error happens in probation".
  The caller's world counts its invocations.\<close>

definition throwing_op :: "(int, nat) operation" where
  "throwing_op w = (Throws (Error ''oh noes''), Suc w)"

section \<open>Properties\<close>

lemmas breaker_defs = new_CircuitBreaker_def clear_def no_options_def
  DEFAULT_CHECK_INTERVAL_def DEFAULT_MAX_CONCURRENT_REQUESTS_def DEFAULT_TRIP_RATE_def
  DEFAULT_WINDOW_def

lemmas gate_defs = do_start_def addConcurrent_def check_def finishedConcurrent_def trip_def

lemmas call_defs = gate_defs doCallback_start_def do_settle_def doCallback_settle_def
  do_call_def doCallback_call_def

lemmas history_defs = addResult_def successRate_def record_result_def drop_oldest_def

subsection \<open>The two wrappers and the events\<close>

lemma doCallback_start_eq: "doCallback_start t t' b = do_start t t' b"
  by (simp add: doCallback_start_def do_start_def)

lemma do_settle_event:
  "snd (do_settle now r b) = apply_event (Settle now (case r of Succeeds v \<Rightarrow> True | _ \<Rightarrow> False)) b"
  by (cases r) (simp_all add: do_settle_def)

lemma doCallback_settle_event:
  "snd (doCallback_settle now (Succeeds v) b) = apply_event (Settle now True) b"
  "snd (doCallback_settle now (Fails e) b) = apply_event (Settle now False) b"
  by (simp_all add: doCallback_settle_def)

lemma doCallback_call_eq:
  "fst (f w) = Succeeds v \<or> fst (f w) = Fails e \<Longrightarrow>
   fst (snd (doCallback_call t0 t0' t1 f (b, w))) = fst (snd (do_call t0 t0' t1 f (b, w)))"
  by (auto simp: doCallback_call_def do_call_def doCallback_start_eq do_settle_def
      doCallback_settle_def split: prod.splits option.splits)

subsection \<open>Runs of one sign\<close>

lemma alternating_snoc:
  "alternating (xs @ [a]) = (alternating xs \<and> (xs \<noteq> [] \<longrightarrow> \<not> same_sign (last xs) a))"
  by (induction xs rule: alternating.induct) auto

lemma alternating_tl: "alternating (x # xs) \<Longrightarrow> alternating xs"
  by (cases xs) simp_all

lemma alternating_hd_same:
  "alternating (x # xs) \<Longrightarrow> (0 < x') = (0 < x) \<Longrightarrow> (x' < 0) = (x < 0) \<Longrightarrow> alternating (x' # xs)"
  by (cases xs) (simp_all add: same_sign_def)

lemma history_ok_Finite:
  "history_ok w (map Finite xs) = (0 \<notin> set xs \<and> alternating xs \<and> (\<Sum>x\<leftarrow>xs. \<bar>x\<bar>) = w)"
  by (auto simp: history_ok_def list_all_iff comp_def)

lemma all_Finite_map: "list_all is_Finite h \<Longrightarrow> map Finite (map int_of h) = h"
proof (induction h)
  case Nil
  show ?case by simp
next
  case (Cons x h)
  then show ?case by (cases x) simp_all
qed

lemma history_okE:
  assumes "history_ok w h"
  obtains xs where "h = map Finite xs" "0 \<notin> set xs" "alternating xs" "(\<Sum>x\<leftarrow>xs. \<bar>x\<bar>) = w"
proof -
  from assms have fin: "list_all is_Finite h" by (simp add: history_ok_def)
  have eq: "h = map Finite (map int_of h)" by (rule all_Finite_map [OF fin, symmetric])
  from assms eq have "history_ok w (map Finite (map int_of h))" by metis
  then have "0 \<notin> set (map int_of h)" "alternating (map int_of h)"
    "(\<Sum>x\<leftarrow>map int_of h. \<bar>x\<bar>) = w"
    unfolding history_ok_Finite by blast+
  then show thesis by (rule that [OF eq])
qed

lemma length_outcomes: "length (outcomes (map Finite xs)) = nat (\<Sum>x\<leftarrow>xs. \<bar>x\<bar>)"
proof (induction xs)
  case Nil
  show ?case by (simp add: outcomes_def)
next
  case (Cons x xs)
  have "0 \<le> (\<Sum>x\<leftarrow>xs. \<bar>x\<bar>)" by (rule sum_list_nonneg) auto
  with Cons show ?case by (simp add: outcomes_def nat_add_distrib)
qed

subsection \<open>Recording one outcome\<close>

lemma record_result_snoc:
  "record_result r (map Finite (ys @ [z])) =
     map Finite (if (0 < z \<and> r < 0) \<or> (z < 0 \<and> 0 < r) then ys @ [z, r] else ys @ [z + r])"
  by (simp add: record_result_def)

lemma drop_oldest_Cons:
  "drop_oldest (map Finite (x # xs)) =
     map Finite (if x < 0 then (if x + 1 = 0 then xs else (x + 1) # xs)
                 else (if x - 1 = 0 then xs else (x - 1) # xs))"
  by (simp add: drop_oldest_def)


lemma record_int:
  assumes "0 \<notin> set xs" "alternating xs" "xs \<noteq> []" "r = 1 \<or> r = - 1"
  obtains ys where "record_result r (map Finite xs) = map Finite ys" "0 \<notin> set ys" "alternating ys"
    "(\<Sum>x\<leftarrow>ys. \<bar>x\<bar>) = (\<Sum>x\<leftarrow>xs. \<bar>x\<bar>) + 1" "ys \<noteq> []"
    "outcomes (map Finite ys) = outcomes (map Finite xs) @ [0 < r]"
proof -
  from \<open>xs \<noteq> []\<close> obtain us z where xs: "xs = us @ [z]" by (cases xs rule: rev_cases) auto
  with assms have z: "z \<noteq> 0" and alt: "alternating us" "us \<noteq> [] \<longrightarrow> \<not> same_sign (last us) z"
    and us: "0 \<notin> set us"
    by (auto simp: alternating_snoc)
  show thesis
  proof (cases "(0 < z \<and> r < 0) \<or> (z < 0 \<and> 0 < r)")
    case True
    let ?ys = "xs @ [r]"
    have 1: "record_result r (map Finite xs) = map Finite ?ys"
      unfolding xs record_result_snoc using True by simp
    have 2: "0 \<notin> set ?ys" using assms by auto
    have 3: "alternating ?ys" unfolding alternating_snoc using True assms(2)
      by (auto simp: xs same_sign_def)
    have 4: "(\<Sum>x\<leftarrow>?ys. \<bar>x\<bar>) = (\<Sum>x\<leftarrow>xs. \<bar>x\<bar>) + 1" using assms by auto
    have 5: "outcomes (map Finite ?ys) = outcomes (map Finite xs) @ [0 < r]"
      using assms by (auto simp: outcomes_def)
    show thesis using that [OF 1 2 3 4 _ 5] by simp
  next
    case False
    let ?ys = "us @ [z + r]"
    have 1: "record_result r (map Finite xs) = map Finite ?ys"
      unfolding xs record_result_snoc using False by simp
    have zr: "z + r \<noteq> 0" "(0 < z + r) = (0 < z)" "(0 < r) = (0 < z)" "\<bar>z + r\<bar> = \<bar>z\<bar> + 1" 
      using False z assms(4) by auto
    have 2: "0 \<notin> set ?ys" using us zr by auto
    have 3: "alternating ?ys" using alt zr z by (auto simp: alternating_snoc same_sign_def)
    have 4: "(\<Sum>x\<leftarrow>?ys. \<bar>x\<bar>) = (\<Sum>x\<leftarrow>xs. \<bar>x\<bar>) + 1" using zr by (simp add: xs)
    have "nat (\<bar>z\<bar> + 1) = Suc (nat \<bar>z\<bar>)" by simp
    then have 5: "outcomes (map Finite ?ys) = outcomes (map Finite xs) @ [0 < r]"
      using zr by (simp add: outcomes_def xs replicate_append_same)
    show thesis using that [OF 1 2 3 4 _ 5] by simp
  qed
qed

lemma drop_int:
  assumes "0 \<notin> set xs" "alternating xs" "xs \<noteq> []"
  obtains ys where "drop_oldest (map Finite xs) = map Finite ys" "0 \<notin> set ys" "alternating ys"
    "(\<Sum>x\<leftarrow>ys. \<bar>x\<bar>) = (\<Sum>x\<leftarrow>xs. \<bar>x\<bar>) - 1"
    "outcomes (map Finite ys) = tl (outcomes (map Finite xs))"
proof -
  from \<open>xs \<noteq> []\<close> obtain x rest where xs: "xs = x # rest" by (cases xs) auto
  with assms have x: "x \<noteq> 0" and rest: "0 \<notin> set rest" "alternating rest"
    by (auto dest: alternating_tl)
  define x' where "x' = (if x < 0 then x + 1 else x - 1)"
  have x': "\<bar>x'\<bar> = \<bar>x\<bar> - 1" "x' \<noteq> 0 \<Longrightarrow> (0 < x') = (0 < x)" "x' \<noteq> 0 \<Longrightarrow> (x' < 0) = (x < 0)"
    using x by (auto simp: x'_def)
  have d: "drop_oldest (map Finite xs) = map Finite (if x' = 0 then rest else x' # rest)"
    unfolding xs drop_oldest_Cons x'_def by simp
  have rep: "replicate (nat \<bar>x\<bar>) (0 < x) = (0 < x) # replicate (nat (\<bar>x\<bar> - 1)) (0 < x)"
    using x by (cases "nat \<bar>x\<bar>") (auto simp: nat_diff_distrib')
  show thesis
  proof (cases "x' = 0")
    case True
    then have one: "\<bar>x\<bar> = 1" using x' by simp
    have 1: "drop_oldest (map Finite xs) = map Finite rest" using d True by simp
    have 4: "(\<Sum>x\<leftarrow>rest. \<bar>x\<bar>) = (\<Sum>x\<leftarrow>xs. \<bar>x\<bar>) - 1" using one by (simp add: xs)
    have 5: "outcomes (map Finite rest) = tl (outcomes (map Finite xs))"
      using one by (simp add: outcomes_def xs)
    show thesis using that [OF 1 rest 4 5] .
  next
    case False
    let ?ys = "x' # rest"
    have 1: "drop_oldest (map Finite xs) = map Finite ?ys" using d False by simp
    have 2: "0 \<notin> set ?ys" using False rest by auto
    have 3: "alternating ?ys" using assms(2) x'(2,3) False unfolding xs
      by (auto intro: alternating_hd_same)
    have 4: "(\<Sum>x\<leftarrow>?ys. \<bar>x\<bar>) = (\<Sum>x\<leftarrow>xs. \<bar>x\<bar>) - 1" using x' by (simp add: xs)
    have 5: "outcomes (map Finite ?ys) = tl (outcomes (map Finite xs))"
      using x'(1) x'(2)[OF False] rep by (simp add: outcomes_def xs)
    show thesis using that [OF 1 2 3 4 5] .
  qed
qed


lemma history_step:
  assumes ok: "history_ok w h" and w: "0 < w" and r: "r = 1 \<or> r = - 1"
  shows "history_ok w (drop_oldest (record_result r h))"
    and "outcomes (drop_oldest (record_result r h)) = tl (outcomes h) @ [0 < r]"
proof -
  from ok obtain xs where xs: "h = map Finite xs" "0 \<notin> set xs" "alternating xs"
    "(\<Sum>x\<leftarrow>xs. \<bar>x\<bar>) = w"
    by (rule history_okE)
  with w have ne: "xs \<noteq> []" by auto
  from record_int [OF xs(2,3) ne r] obtain ys where ys:
    "record_result r (map Finite xs) = map Finite ys" "0 \<notin> set ys" "alternating ys"
    "(\<Sum>x\<leftarrow>ys. \<bar>x\<bar>) = (\<Sum>x\<leftarrow>xs. \<bar>x\<bar>) + 1" "ys \<noteq> []"
    "outcomes (map Finite ys) = outcomes (map Finite xs) @ [0 < r]"
    by blast
  from drop_int [OF ys(2,3,5)] obtain zs where zs:
    "drop_oldest (map Finite ys) = map Finite zs" "0 \<notin> set zs" "alternating zs"
    "(\<Sum>x\<leftarrow>zs. \<bar>x\<bar>) = (\<Sum>x\<leftarrow>ys. \<bar>x\<bar>) - 1"
    "outcomes (map Finite zs) = tl (outcomes (map Finite ys))"
    by blast
  have eq: "drop_oldest (record_result r h) = map Finite zs"
    by (simp only: xs(1) ys(1) zs(1))
  show "history_ok w (drop_oldest (record_result r h))"
    unfolding eq history_ok_Finite using zs(2,3,4) ys(4) xs(4) by simp
  have "length (outcomes (map Finite xs)) = nat w"
    by (simp only: length_outcomes xs(4))
  with w have "outcomes (map Finite xs) \<noteq> []" by auto
  moreover have "outcomes (drop_oldest (record_result r h)) = tl (outcomes (map Finite xs) @ [0 < r])"
    by (simp only: eq zs(5) ys(6))
  ultimately show "outcomes (drop_oldest (record_result r h)) = tl (outcomes h) @ [0 < r]"
    by (simp add: xs(1))
qed

subsection \<open>The success rate of a well-formed history\<close>

lemma successRate_loop_Finite:
  "c + (\<Sum>x\<leftarrow>xs. \<bar>x\<bar>) \<le> w \<Longrightarrow>
   successRate_loop w (map Finite xs) (Finite s, Finite c) =
     (Finite (s + (\<Sum>x\<leftarrow>xs. max x 0)), Finite (c + (\<Sum>x\<leftarrow>xs. \<bar>x\<bar>)))"
proof (induction xs arbitrary: s c)
  case Nil
  show ?case by simp
next
  case (Cons x xs)
  have nn: "0 \<le> (\<Sum>x\<leftarrow>xs. \<bar>x\<bar>)" by (rule sum_list_nonneg) auto
  with Cons.prems have le: "c \<le> w" by simp
  show ?case
  proof (cases "x < 0")
    case True
    with Cons.prems have "(c - x) + (\<Sum>x\<leftarrow>xs. \<bar>x\<bar>) \<le> w" by simp
    from Cons.IH [OF this, of s] True le show ?thesis by simp
  next
    case False
    with Cons.prems have "(c + x) + (\<Sum>x\<leftarrow>xs. \<bar>x\<bar>) \<le> w" by simp
    from Cons.IH [OF this, of "s + x"] False le show ?thesis by (simp add: max_def)
  qed
qed

lemma sum_max_bounds: "0 \<le> (\<Sum>x\<leftarrow>xs. max x (0::int)) \<and> (\<Sum>x\<leftarrow>xs. max x 0) \<le> (\<Sum>x\<leftarrow>xs. \<bar>x\<bar>)"
  by (induction xs) auto

lemma successRate_ok:
  assumes ok: "history_ok (window b) (history b)" and w: "0 < window b"
  shows "\<exists>q. successRate b = Ratio q \<and> 0 \<le> q \<and> q \<le> 1"
proof -
  from ok obtain xs where xs: "history b = map Finite xs" "(\<Sum>x\<leftarrow>xs. \<bar>x\<bar>) = window b"
    by (rule history_okE)
  define p where "p = (\<Sum>x\<leftarrow>xs. max x 0)"
  have p: "0 \<le> p" "p \<le> window b" using sum_max_bounds [of xs] by (simp_all add: p_def xs(2))
  have "successRate_loop (window b) (map Finite xs) (Finite 0, Finite 0) = (Finite p, Finite (window b))"
    using successRate_loop_Finite [of 0 xs "window b" 0] by (simp add: xs(2) p_def)
  then have "successRate b = Ratio (of_int p / of_int (window b))"
    using w by (simp add: successRate_def xs(1))
  moreover have "0 \<le> (of_int p / of_int (window b) :: rat)" using p w by simp
  moreover have "(of_int p / of_int (window b) :: rat) \<le> 1" using p w by simp
  ultimately show ?thesis by blast
qed

subsection \<open>Every event keeps the history well-formed\<close>

lemma window_addResult: "window (addResult now r b) = window b"
  by (simp add: addResult_def Let_def trip_def)

lemma history_addResult: "history (addResult now r b) = drop_oldest (record_result r (history b))"
  by (simp add: addResult_def Let_def trip_def)

lemma do_start_frame:
  "window (snd (do_start t t' b)) = window b \<and> history (snd (do_start t t' b)) = history b"
  by (simp add: do_start_def addConcurrent_def check_def finishedConcurrent_def trip_def Let_def split: prod.splits)

lemma apply_event_window: "window (apply_event e b) = window b"
  by (cases e) (simp_all add: window_addResult do_start_frame finishedConcurrent_def clear_def trip_def check_def)

lemma apply_event_history_ok:
  assumes "history_ok (window b) (history b)" "0 < window b"
  shows "history_ok (window b) (history (apply_event e b))"
proof (cases e)
  case (Start t t')
  with assms show ?thesis by (simp add: do_start_frame)
next
  case (Settle t ok)
  have "history_ok (window b) (drop_oldest (record_result (if ok then 1 else - 1) (history b)))"
    by (rule history_step(1) [OF assms]) simp
  with Settle show ?thesis by (simp add: history_addResult finishedConcurrent_def)
next
  case Clear
  with assms(2) show ?thesis by (simp add: clear_def history_ok_def)
next
  case (Trip t)
  with assms show ?thesis by (simp add: trip_def)
next
  case (Check t)
  with assms show ?thesis by (simp add: check_def)
qed

lemma run_invariant:
  "history_ok (window b) (history b) \<Longrightarrow> 0 < window b \<Longrightarrow>
   window (run es b) = window b \<and> history_ok (window b) (history (run es b))"
proof (induction es arbitrary: b)
  case Nil
  then show ?case by simp
next
  case (Cons e es)
  have "history_ok (window (apply_event e b)) (history (apply_event e b))"
    using apply_event_history_ok [OF Cons.prems] by (simp add: apply_event_window)
  moreover have "0 < window (apply_event e b)" using Cons.prems by (simp add: apply_event_window)
  ultimately show ?case using Cons.IH [of "apply_event e b"] by (simp add: apply_event_window)
qed

lemma new_history_ok:
  "0 < window (new_CircuitBreaker nm opts) \<Longrightarrow>
   history_ok (window (new_CircuitBreaker nm opts)) (history (new_CircuitBreaker nm opts))"
  by (simp add: new_CircuitBreaker_def clear_def history_ok_def)



section \<open>The claims\<close>

subsection \<open>C1: the history invariant\<close>

text \<open>
  C1. For every breaker constructed with a positive window and every sequence of events
  on it (call starts, recorded successes and failures, \<open>clear\<close>, \<open>trip\<close>, \<open>check\<close>), the
  history holds integers, none of them zero, no two neighbours of the same sign, whose
  absolute values sum to exactly \<open>window\<close>. Recording one more outcome removes the oldest
  unit of the outcomes the history stands for and appends the new one at the newest end.
\<close>

theorem history_invariant:
  assumes "0 < window (new_CircuitBreaker nm opts)"
  shows "history_ok (window (new_CircuitBreaker nm opts))
           (history (run es (new_CircuitBreaker nm opts)))
       \<and> outcomes (history (apply_event (Settle now ok) (run es (new_CircuitBreaker nm opts))))
           = tl (outcomes (history (run es (new_CircuitBreaker nm opts)))) @ [ok]"
proof -
  let ?b0 = "new_CircuitBreaker nm opts"
  from run_invariant [OF new_history_ok [OF assms] assms, of es]
  have inv: "history_ok (window ?b0) (history (run es ?b0))" by simp
  have r: "(if ok then 1 else - 1) = (1::int) \<or> (if ok then 1 else - 1) = (- 1::int)" by simp
  have "outcomes (drop_oldest (record_result (if ok then 1 else - 1) (history (run es ?b0))))
          = tl (outcomes (history (run es ?b0))) @ [0 < (if ok then 1 else - 1 :: int)]"
    by (rule history_step(2) [OF inv assms r])
  then have "outcomes (history (apply_event (Settle now ok) (run es ?b0)))
          = tl (outcomes (history (run es ?b0))) @ [ok]"
    by (simp add: history_addResult finishedConcurrent_def)
  with inv show ?thesis by simp
qed

theorem history_invariant_witness:
  "0 < window (new_CircuitBreaker ''test'' (no_options\<lparr>opt_window := Some 5\<rparr>))
   \<and> history (apply_event (Settle 3 True)
        (run (fail_call 0 0 1) (new_CircuitBreaker ''test'' (no_options\<lparr>opt_window := Some 5\<rparr>))))
      = [Finite 3, Finite (- 1), Finite 1]
   \<and> history_ok 5 (history
        (run (fail_call 0 0 1) (new_CircuitBreaker ''test'' (no_options\<lparr>opt_window := Some 5\<rparr>))))
   \<and> outcomes (history (apply_event (Settle 3 True)
        (run (fail_call 0 0 1) (new_CircuitBreaker ''test'' (no_options\<lparr>opt_window := Some 5\<rparr>)))))
      = tl (outcomes (history
        (run (fail_call 0 0 1) (new_CircuitBreaker ''test'' (no_options\<lparr>opt_window := Some 5\<rparr>)))))
        @ [True]"
proof -
  let ?b0 = "new_CircuitBreaker ''test'' (no_options\<lparr>opt_window := Some 5\<rparr>)"
  have w: "window ?b0 = 5" by (simp add: breaker_defs)
  then have pos: "0 < window ?b0" by simp
  have h: "history (apply_event (Settle 3 True) (run (fail_call 0 0 1) ?b0))
             = [Finite 3, Finite (- 1), Finite 1]"
    by (simp add: fail_call_def breaker_defs gate_defs history_defs)
  from history_invariant [OF pos, of "fail_call 0 0 1" 3 True] pos h show ?thesis
    by (simp only: w)
qed

subsection \<open>C2: admission while tripped\<close>

text \<open>
  C2 as stated fails. In \<open>wedged_breaker\<close> the mode is Tripped since time 10 and
  \<open>checkInterval\<close> is 50. The first call after that, at time 100, is made after the
  interval has elapsed, but it is the second call in flight with \<open>maxConcurrent = 1\<close>:
  \<open>addConcurrent\<close> trips again before \<open>check\<close> runs, the call is rejected, the operation
  is not invoked and the mode is still Tripped.
\<close>

theorem tripped_after_interval_counterexample:
  "mode wedged_breaker = Tripped
   \<and> lastCheck wedged_breaker + checkInterval wedged_breaker \<le> 100
   \<and> do_call 100 100 101 throwing_op (wedged_breaker, 0)
       = (Inl (Error ''Circuit breaker tripped: db''), wedged_breaker\<lparr>lastCheck := 100\<rparr>, 0)
   \<and> mode (wedged_breaker\<lparr>lastCheck := 100\<rparr>) \<noteq> Probation"
  by (simp add: wedged_breaker_def breaker_defs call_defs)

text \<open>
  C2, amended. Let the mode be Tripped, and let a call of \<open>do\<close> read the clock as \<open>t\<close>
  in \<open>trip\<close> (a reading made only if the call pushes the in-flight count above
  \<open>maxConcurrent\<close>) and then as \<open>t'\<close> in \<open>check\<close>.
  \<^item> Before \<open>checkInterval\<close> has elapsed since the last trip (\<open>t' < lastCheck +
    checkInterval\<close>, and \<open>lastCheck \<le> t\<close> if \<open>trip\<close> reads the clock), the call is
    rejected with the error "Circuit breaker tripped: name", the operation is not
    invoked (the caller's world is unchanged), the mode stays Tripped and the in-flight
    count is what it was.
  \<^item> At or after that time, a call that does not push the in-flight count above
    \<open>maxConcurrent\<close> sets the mode to Probation in \<open>check\<close> and is admitted: the
    operation is invoked.
  \<^item> A call that pushes the count above \<open>maxConcurrent\<close> trips the breaker again, with
    trip time \<open>t\<close>. It is then rejected without invoking the operation if \<open>check\<close>
    reads the clock less than \<open>checkInterval\<close> after \<open>t\<close>, and admitted in Probation if
    the clock has advanced by \<open>checkInterval\<close> or more between the two readings.
\<close>

theorem tripped_admission:
  assumes "mode b = Tripped"
  shows "((concurrent b + 1 \<le> maxConcurrent b \<or> lastCheck b \<le> t)
            \<and> t' < lastCheck b + checkInterval b \<longrightarrow>
            fst (do_call t t' t1 f (b, w)) = Inl (Error (''Circuit breaker tripped: '' @ name b))
            \<and> snd (snd (do_call t t' t1 f (b, w))) = w
            \<and> mode (fst (snd (do_call t t' t1 f (b, w)))) = Tripped
            \<and> concurrent (fst (snd (do_call t t' t1 f (b, w)))) = concurrent b)
       \<and> (lastCheck b + checkInterval b \<le> t' \<and> concurrent b + 1 \<le> maxConcurrent b \<longrightarrow>
            do_start t t' b = (None, b\<lparr>concurrent := concurrent b + 1, mode := Probation\<rparr>)
            \<and> snd (snd (do_call t t' t1 f (b, w))) = snd (f w))
       \<and> (maxConcurrent b < concurrent b + 1 \<and> t' < t + checkInterval b \<longrightarrow>
            do_call t t' t1 f (b, w)
              = (Inl (Error (''Circuit breaker tripped: '' @ name b)), b\<lparr>lastCheck := t\<rparr>, w))
       \<and> (maxConcurrent b < concurrent b + 1 \<and> t + checkInterval b \<le> t' \<longrightarrow>
            do_start t t' b
              = (None, b\<lparr>concurrent := concurrent b + 1, mode := Probation, lastCheck := t\<rparr>)
            \<and> snd (snd (do_call t t' t1 f (b, w))) = snd (f w))"
proof (intro conjI impI)
  assume "(concurrent b + 1 \<le> maxConcurrent b \<or> lastCheck b \<le> t)
            \<and> t' < lastCheck b + checkInterval b"
  with assms show "fst (do_call t t' t1 f (b, w)) = Inl (Error (''Circuit breaker tripped: '' @ name b))"
    and "snd (snd (do_call t t' t1 f (b, w))) = w"
    and "mode (fst (snd (do_call t t' t1 f (b, w)))) = Tripped"
    and "concurrent (fst (snd (do_call t t' t1 f (b, w)))) = concurrent b"
    by (auto simp: do_call_def gate_defs Let_def)
next
  assume a: "lastCheck b + checkInterval b \<le> t' \<and> concurrent b + 1 \<le> maxConcurrent b"
  with assms show s: "do_start t t' b = (None, b\<lparr>concurrent := concurrent b + 1, mode := Probation\<rparr>)"
    by (simp add: gate_defs Let_def)
  show "snd (snd (do_call t t' t1 f (b, w))) = snd (f w)"
    by (simp add: do_call_def s split: prod.splits)
next
  assume "maxConcurrent b < concurrent b + 1 \<and> t' < t + checkInterval b"
  with assms show "do_call t t' t1 f (b, w)
              = (Inl (Error (''Circuit breaker tripped: '' @ name b)), b\<lparr>lastCheck := t\<rparr>, w)"
    by (simp add: do_call_def gate_defs Let_def)
next
  assume "maxConcurrent b < concurrent b + 1 \<and> t + checkInterval b \<le> t'"
  with assms show s: "do_start t t' b
              = (None, b\<lparr>concurrent := concurrent b + 1, mode := Probation, lastCheck := t\<rparr>)"
    by (simp add: gate_defs Let_def)
  show "snd (snd (do_call t t' t1 f (b, w))) = snd (f w)"
    by (simp add: do_call_def s split: prod.splits)
qed

theorem tripped_admission_witness:
  "mode tripped_breaker = Tripped
   \<and> ((concurrent tripped_breaker + 1 \<le> maxConcurrent tripped_breaker \<or> lastCheck tripped_breaker \<le> 20)
        \<and> 20 < lastCheck tripped_breaker + checkInterval tripped_breaker)
   \<and> fst (do_call 20 20 21 throwing_op (tripped_breaker, 0)) = Inl (Error ''Circuit breaker tripped: test'')
   \<and> snd (snd (do_call 20 20 21 throwing_op (tripped_breaker, 0))) = 0
   \<and> (lastCheck tripped_breaker + checkInterval tripped_breaker \<le> 50
        \<and> concurrent tripped_breaker + 1 \<le> maxConcurrent tripped_breaker)
   \<and> mode (snd (do_start 50 50 tripped_breaker)) = Probation
   \<and> snd (snd (do_call 50 50 51 throwing_op (tripped_breaker, 0))) = 1
   \<and> mode wedged_breaker = Tripped
   \<and> (maxConcurrent wedged_breaker < concurrent wedged_breaker + 1
        \<and> 101 < 100 + checkInterval wedged_breaker)
   \<and> fst (do_call 100 101 102 throwing_op (wedged_breaker, 0)) = Inl (Error ''Circuit breaker tripped: db'')
   \<and> (maxConcurrent wedged_breaker < concurrent wedged_breaker + 1
        \<and> 100 + checkInterval wedged_breaker \<le> 150)
   \<and> mode (snd (do_start 100 150 wedged_breaker)) = Probation
   \<and> snd (snd (do_call 100 150 151 throwing_op (wedged_breaker, 0))) = 1"
proof -
  have t: "mode tripped_breaker = Tripped" "lastCheck tripped_breaker = 0"
    "checkInterval tripped_breaker = 50" "concurrent tripped_breaker = 0"
    "maxConcurrent tripped_breaker = 2" "name tripped_breaker = ''test''"
    by (simp_all add: tripped_breaker_def breaker_defs gate_defs)
  have u: "mode wedged_breaker = Tripped" "lastCheck wedged_breaker = 10"
    "checkInterval wedged_breaker = 50" "concurrent wedged_breaker = 1"
    "maxConcurrent wedged_breaker = 1" "name wedged_breaker = ''db''"
    by (simp_all add: wedged_breaker_def breaker_defs gate_defs)
  from tripped_admission [OF t(1), of 20 20 21 throwing_op 0]
    tripped_admission [OF t(1), of 50 50 51 throwing_op 0]
    tripped_admission [OF u(1), of 100 101 102 throwing_op 0]
    tripped_admission [OF u(1), of 100 150 151 throwing_op 0]
  show ?thesis by (simp add: t u throwing_op_def)
qed

subsection \<open>C3: outcomes in Probation\<close>

text \<open>
  C3. When the mode is Probation, recording a success sets the mode to Normal, and
  recording a failure sets the mode to Tripped and the trip time to the current time,
  whatever the history, the success rate and \<open>tripRate\<close> are. This holds for
  \<open>addResult\<close> and for the settling of a call through either wrapper.
\<close>

theorem probation_outcome:
  assumes "mode b = Probation"
  shows "mode (addResult now 1 b) = Normal
       \<and> mode (addResult now (- 1) b) = Tripped \<and> lastCheck (addResult now (- 1) b) = now
       \<and> mode (snd (do_settle now (Succeeds v) b)) = Normal
       \<and> mode (snd (do_settle now (Fails e) b)) = Tripped
       \<and> lastCheck (snd (do_settle now (Fails e) b)) = now
       \<and> mode (snd (doCallback_settle now (Succeeds v) b)) = Normal
       \<and> mode (snd (doCallback_settle now (Fails e) b)) = Tripped
       \<and> lastCheck (snd (doCallback_settle now (Fails e) b)) = now"
  using assms
  by (simp add: addResult_def trip_def do_settle_def doCallback_settle_def finishedConcurrent_def)

theorem probation_outcome_witness:
  "mode probing_breaker = Probation
   \<and> mode (addResult 60 1 probing_breaker) = Normal
   \<and> successRate (addResult 60 (- 1) probing_breaker) = Ratio (99 / 100)
   \<and> \<not> quotient_lt (successRate (addResult 60 (- 1) probing_breaker)) (tripRate probing_breaker)
   \<and> mode (addResult 60 (- 1) probing_breaker) = Tripped
   \<and> lastCheck (addResult 60 (- 1) probing_breaker) = 60"
proof -
  have p: "mode probing_breaker = Probation"
    by (simp add: probing_breaker_def tripped_breaker_def breaker_defs gate_defs)
  have r: "successRate (addResult 60 (- 1) probing_breaker) = Ratio (99 / 100)"
    "tripRate probing_breaker = 9 / 10"
    by (simp_all add: probing_breaker_def tripped_breaker_def breaker_defs gate_defs history_defs)
  have q: "\<not> quotient_lt (successRate (addResult 60 (- 1) probing_breaker)) (tripRate probing_breaker)"
    by (simp add: r)
  from probation_outcome [OF p, of 60 "0::int" "Error ''boo!''"] p r(1) q show ?thesis
    by blast
qed

subsection \<open>C4: the concurrency ceiling\<close>

text \<open>
  C4 as stated fails in its last part. \<open>tight_breaker\<close> has \<open>checkInterval = 1\<close>,
  \<open>maxConcurrent = 1\<close> and one call in flight. A second call exceeds the ceiling and
  \<open>trip\<close> reads the clock as 7; when \<open>check\<close> then reads it as 8, the interval has
  elapsed since that trip: the mode becomes Probation and the call that exceeded the
  ceiling is admitted, its operation invoked, although \<open>checkInterval\<close> is positive.
\<close>

theorem ceiling_admitted_counterexample:
  "0 < checkInterval tight_breaker
   \<and> maxConcurrent tight_breaker < concurrent tight_breaker + 1
   \<and> mode (addConcurrent 7 tight_breaker) = Tripped
   \<and> fst (do_start 7 8 tight_breaker) = None
   \<and> mode (snd (do_start 7 8 tight_breaker)) = Probation
   \<and> snd (snd (do_call 7 8 9 throwing_op (tight_breaker, 0))) = 1"
  by (simp add: tight_breaker_def throwing_op_def breaker_defs call_defs addResult_def)

text \<open>
  C4, amended. A call start increments the in-flight counter first and checks admission
  on the result. Whenever the incremented counter exceeds \<open>maxConcurrent\<close>,
  \<open>addConcurrent\<close> sets the mode to Tripped and the trip time to its clock reading \<open>t\<close>,
  in every mode and without reading the history. The call that exceeded the ceiling is
  itself rejected, its operation not invoked and the breaker left Tripped at \<open>t\<close>, when
  \<open>check\<close> reads the clock less than \<open>checkInterval\<close> after \<open>t\<close> (so whenever both
  readings are the same and \<open>checkInterval\<close> is positive); when the clock has advanced
  by \<open>checkInterval\<close> or more between the two readings, the call is admitted in
  Probation.
\<close>

theorem ceiling_trips:
  "concurrent (addConcurrent t b) = concurrent b + 1
   \<and> do_start t t' b
       = (if fst (check t' (addConcurrent t b))
          then (None, snd (check t' (addConcurrent t b)))
          else (Some (Error (''Circuit breaker tripped: '' @ name b)),
                finishedConcurrent (snd (check t' (addConcurrent t b)))))
   \<and> (maxConcurrent b < concurrent b + 1 \<longrightarrow>
        addConcurrent t b = b\<lparr>concurrent := concurrent b + 1, mode := Tripped, lastCheck := t\<rparr>
        \<and> (t' < t + checkInterval b \<longrightarrow>
             do_call t t' t1 f (b, w)
               = (Inl (Error (''Circuit breaker tripped: '' @ name b)),
                  b\<lparr>mode := Tripped, lastCheck := t\<rparr>, w))
        \<and> (0 < checkInterval b \<longrightarrow>
             do_call t t t1 f (b, w)
               = (Inl (Error (''Circuit breaker tripped: '' @ name b)),
                  b\<lparr>mode := Tripped, lastCheck := t\<rparr>, w))
        \<and> (t + checkInterval b \<le> t' \<longrightarrow>
             do_start t t' b
               = (None, b\<lparr>concurrent := concurrent b + 1, mode := Probation, lastCheck := t\<rparr>)))"
  by (simp add: do_call_def gate_defs Let_def)

theorem ceiling_trips_witness:
  "mode crowded_breaker = Probation
   \<and> maxConcurrent crowded_breaker < concurrent crowded_breaker + 1
   \<and> 0 < checkInterval crowded_breaker
   \<and> 60 < 52 + checkInterval crowded_breaker
   \<and> 52 + checkInterval crowded_breaker \<le> 102
   \<and> mode (addConcurrent 52 crowded_breaker) = Tripped
   \<and> lastCheck (addConcurrent 52 crowded_breaker) = 52
   \<and> fst (do_call 52 60 61 throwing_op (crowded_breaker, 0))
       = Inl (Error ''Circuit breaker tripped: test'')
   \<and> snd (snd (do_call 52 60 61 throwing_op (crowded_breaker, 0))) = 0
   \<and> fst (do_call 52 52 61 throwing_op (crowded_breaker, 0))
       = Inl (Error ''Circuit breaker tripped: test'')
   \<and> fst (do_start 52 102 crowded_breaker) = None
   \<and> mode (snd (do_start 52 102 crowded_breaker)) = Probation"
proof -
  have p: "mode crowded_breaker = Probation" "maxConcurrent crowded_breaker = 2"
    "concurrent crowded_breaker = 2" "checkInterval crowded_breaker = 50"
    "name crowded_breaker = ''test''"
    by (simp_all add: crowded_breaker_def probing_breaker_def tripped_breaker_def breaker_defs
        gate_defs)
  have over: "maxConcurrent crowded_breaker < concurrent crowded_breaker + 1" by (simp add: p)
  note c = conjunct2 [OF conjunct2 [OF ceiling_trips [of 52 crowded_breaker _ _ throwing_op 0]],
      rule_format, OF over]
  have a: "addConcurrent 52 crowded_breaker
             = crowded_breaker\<lparr>concurrent := concurrent crowded_breaker + 1, mode := Tripped,
                 lastCheck := 52\<rparr>"
    using c [of 60 61] by blast
  have r: "do_call 52 60 61 throwing_op (crowded_breaker, 0)
             = (Inl (Error (''Circuit breaker tripped: '' @ name crowded_breaker)),
                crowded_breaker\<lparr>mode := Tripped, lastCheck := 52\<rparr>, 0)"
    using c [of 60 61] by (simp add: p)
  have r': "do_call 52 52 61 throwing_op (crowded_breaker, 0)
             = (Inl (Error (''Circuit breaker tripped: '' @ name crowded_breaker)),
                crowded_breaker\<lparr>mode := Tripped, lastCheck := 52\<rparr>, 0)"
    using c [of 60 61] by (simp add: p)
  have d: "do_start 52 102 crowded_breaker
             = (None, crowded_breaker\<lparr>concurrent := concurrent crowded_breaker + 1,
                  mode := Probation, lastCheck := 52\<rparr>)"
    using c [of 102 61] by (simp add: p)
  show ?thesis by (simp add: a r r' d p)
qed

subsection \<open>C5: the scenario of the test "trips after 50% failures"\<close>

text \<open>
  C5. For a fresh breaker with \<open>window = 5\<close> and \<open>tripRate = 0.5\<close> (other options at
  their defaults), the awaited calls failure, success, failure, success, failure, made
  at any times, leave the success rates 4/5, 4/5, 3/5, 3/5 and 2/5; after the fifth the
  mode is Tripped; and a next call made less than the default \<open>checkInterval\<close> of 30000
  after the fifth outcome is rejected with the breaker-tripped error, its operation not
  invoked. (The rates are exact fractions; the doubles \<open>0.8\<close>, \<open>0.6\<close>, \<open>0.4\<close> of the
  test are the correctly rounded quotients \<open>4/5\<close>, \<open>3/5\<close>, \<open>2/5\<close>.)
\<close>

theorem half_breaker_scenario:
  "successRate (run (fail_call r1 s1 e1) (half_breaker nm)) = Ratio (4 / 5)
   \<and> successRate (run (fail_call r1 s1 e1 @ succeed_call r2 s2 e2) (half_breaker nm))
       = Ratio (4 / 5)
   \<and> successRate (run (fail_call r1 s1 e1 @ succeed_call r2 s2 e2 @ fail_call r3 s3 e3)
        (half_breaker nm)) = Ratio (3 / 5)
   \<and> successRate (run (fail_call r1 s1 e1 @ succeed_call r2 s2 e2 @ fail_call r3 s3 e3
        @ succeed_call r4 s4 e4) (half_breaker nm)) = Ratio (3 / 5)
   \<and> successRate (run (fail_call r1 s1 e1 @ succeed_call r2 s2 e2 @ fail_call r3 s3 e3
        @ succeed_call r4 s4 e4 @ fail_call r5 s5 e5) (half_breaker nm)) = Ratio (2 / 5)
   \<and> mode (run (fail_call r1 s1 e1 @ succeed_call r2 s2 e2 @ fail_call r3 s3 e3
        @ succeed_call r4 s4 e4 @ fail_call r5 s5 e5) (half_breaker nm)) = Tripped
   \<and> (s6 < e5 + 30000 \<longrightarrow>
        fst (do_call r6 s6 e6 f
              (run (fail_call r1 s1 e1 @ succeed_call r2 s2 e2 @ fail_call r3 s3 e3
                 @ succeed_call r4 s4 e4 @ fail_call r5 s5 e5) (half_breaker nm), w))
          = Inl (Error (''Circuit breaker tripped: '' @ nm))
        \<and> snd (snd (do_call r6 s6 e6 f
              (run (fail_call r1 s1 e1 @ succeed_call r2 s2 e2 @ fail_call r3 s3 e3
                 @ succeed_call r4 s4 e4 @ fail_call r5 s5 e5) (half_breaker nm), w))) = w)"
  by (simp add: fail_call_def succeed_call_def half_breaker_def breaker_defs do_call_def
      gate_defs history_defs Let_def)

theorem half_breaker_scenario_witness:
  "(6::int) < 5 + 30000
   \<and> successRate (run (fail_call 0 0 1 @ succeed_call 1 1 2 @ fail_call 2 2 3 @ succeed_call 3 3 4
        @ fail_call 4 4 5) (half_breaker ''test'')) = Ratio (2 / 5)
   \<and> fst (do_call 6 6 7 throwing_op
            (run (fail_call 0 0 1 @ succeed_call 1 1 2 @ fail_call 2 2 3 @ succeed_call 3 3 4
               @ fail_call 4 4 5) (half_breaker ''test''), 0))
       = Inl (Error ''Circuit breaker tripped: test'')
   \<and> snd (snd (do_call 6 6 7 throwing_op
            (run (fail_call 0 0 1 @ succeed_call 1 1 2 @ fail_call 2 2 3 @ succeed_call 3 3 4
               @ fail_call 4 4 5) (half_breaker ''test''), 0))) = 0"
  using half_breaker_scenario
    [of 0 0 1 "''test''" 1 1 2 2 2 3 3 3 4 4 4 5 6 6 7 throwing_op 0]
  by simp

subsection \<open>C6: the in-flight counter across one call\<close>

text \<open>Through \<open>do\<close> the counter is restored on every path: rejection, result, rejection
  of the promise, synchronous throw. Through \<open>doCallback\<close> it is restored when the call is
  rejected at admission and when the operation invokes the continuation.\<close>

lemma concurrent_addResult: "concurrent (addResult now r b) = concurrent b"
  by (simp add: addResult_def Let_def trip_def)

lemma concurrent_do_start:
  "concurrent (snd (do_start t t' b))
     = (if fst (do_start t t' b) = None then concurrent b + 1 else concurrent b)"
  by (simp add: gate_defs Let_def)

lemma concurrent_do_settle: "concurrent (snd (do_settle now r b)) = concurrent b - 1"
  by (cases r) (simp_all add: do_settle_def finishedConcurrent_def concurrent_addResult)

lemma do_call_restores_concurrent:
  "concurrent (fst (snd (do_call t0 t0' t1 f (b, w)))) = concurrent b"
proof -
  obtain r b1 where s: "do_start t0 t0' b = (r, b1)" by (cases "do_start t0 t0' b")
  obtain x w1 where f: "f w = (x, w1)" by (cases "f w")
  obtain res b2 where d: "do_settle t1 x b1 = (res, b2)" by (cases "do_settle t1 x b1")
  from concurrent_do_start [of t0 t0' b] s
  have c1: "concurrent b1 = (if r = None then concurrent b + 1 else concurrent b)" by simp
  from concurrent_do_settle [of t1 x b1] d
  have c2: "concurrent b2 = concurrent b1 - 1" by simp
  show ?thesis by (cases r) (simp_all add: do_call_def s f d c1 c2)
qed

lemma doCallback_call_restores_concurrent:
  assumes "fst (f w) = Succeeds v \<or> fst (f w) = Fails e"
  shows "concurrent (fst (snd (doCallback_call t0 t0' t1 f (b, w)))) = concurrent b"
  using doCallback_call_eq [of f w v e t0 t0' t1 b] assms by (simp add: do_call_restores_concurrent)

text \<open>
  C6, evaluated where the code departs from it. On a fresh breaker with the default
  options, \<open>doCallback\<close> with an operation that throws synchronously is admitted, the
  exception leaves \<open>doCallback\<close>, no outcome is recorded and \<open>concurrent\<close> stays at 1;
  \<open>do\<close> with the same operation records a failure and brings \<open>concurrent\<close> back to 0.
\<close>

theorem doCallback_throw_leaks_concurrent:
  "doCallback_call 0 0 1 throwing_op (new_CircuitBreaker ''test'' no_options, 0)
     = (Exception (Error ''oh noes''),
        (new_CircuitBreaker ''test'' no_options)\<lparr>concurrent := 1\<rparr>, 1)
   \<and> do_call 0 0 1 throwing_op (new_CircuitBreaker ''test'' no_options, 0)
     = (Inl (Error ''oh noes''),
        (new_CircuitBreaker ''test'' no_options)\<lparr>history := [Finite 99, Finite (- 1)]\<rparr>, 1)
   \<and> concurrent (new_CircuitBreaker ''test'' no_options) = 0"
  by (simp add: throwing_op_def breaker_defs call_defs history_defs)

subsection \<open>C7: clear\<close>

text \<open>
  C7 as stated fails in one part. The constructor accepts \<open>window: 0\<close>; on such a
  breaker, tripped by hand at time 5, \<open>clear\<close> sets the history to \<open>[0]\<close> and the mode
  to Normal, and the success rate immediately afterwards is 0 divided by 0, not 1.
\<close>

theorem clear_rate_counterexample:
  "mode (trip 5 zero_window_breaker) = Tripped
   \<and> mode (clear (trip 5 zero_window_breaker)) = Normal
   \<and> history (clear (trip 5 zero_window_breaker)) = [Finite 0]
   \<and> successRate (clear (trip 5 zero_window_breaker)) = Undefined
   \<and> successRate (clear (trip 5 zero_window_breaker)) \<noteq> Ratio 1"
  by (simp add: zero_window_breaker_def breaker_defs trip_def successRate_def)

text \<open>
  C7, amended. \<open>clear\<close> replaces the history with the single run \<open>[window]\<close> and sets the
  mode to Normal; \<open>concurrent\<close>, \<open>lastCheck\<close> and every configuration field are
  unchanged. The success rate immediately afterwards is exactly 1 if \<open>window\<close> is
  positive; if \<open>window\<close> is zero or negative (which the constructor accepts) it is 0
  divided by 0.
\<close>

theorem clear_frame:
  "history (clear b) = [Finite (window b)] \<and> mode (clear b) = Normal
   \<and> (0 < window b \<longrightarrow> successRate (clear b) = Ratio 1)
   \<and> (window b \<le> 0 \<longrightarrow> successRate (clear b) = Undefined)
   \<and> concurrent (clear b) = concurrent b \<and> lastCheck (clear b) = lastCheck b
   \<and> name (clear b) = name b \<and> checkInterval (clear b) = checkInterval b
   \<and> maxConcurrent (clear b) = maxConcurrent b \<and> window (clear b) = window b
   \<and> tripRate (clear b) = tripRate b"
  by (simp add: clear_def successRate_def)

theorem clear_frame_witness:
  "0 < window tripped_half_breaker \<and> mode tripped_half_breaker = Tripped
   \<and> history tripped_half_breaker = [Finite 2, Finite (- 3)]
   \<and> lastCheck tripped_half_breaker = 6 \<and> concurrent tripped_half_breaker = 1
   \<and> history (clear tripped_half_breaker) = [Finite 5]
   \<and> successRate (clear tripped_half_breaker) = Ratio 1
   \<and> mode (clear tripped_half_breaker) = Normal
   \<and> lastCheck (clear tripped_half_breaker) = 6 \<and> concurrent (clear tripped_half_breaker) = 1
   \<and> window (new_CircuitBreaker ''test'' (no_options\<lparr>opt_window := Some (- 3)\<rparr>)) \<le> 0
   \<and> successRate (clear (new_CircuitBreaker ''test'' (no_options\<lparr>opt_window := Some (- 3)\<rparr>)))
       = Undefined"
proof -
  let ?n = "new_CircuitBreaker ''test'' (no_options\<lparr>opt_window := Some (- 3)\<rparr>)"
  have w: "window tripped_half_breaker = 5" "mode tripped_half_breaker = Tripped"
    "history tripped_half_breaker = [Finite 2, Finite (- 3)]"
    "lastCheck tripped_half_breaker = 6" "concurrent tripped_half_breaker = 1"
    by (simp_all add: tripped_half_breaker_def fail_call_def half_breaker_def breaker_defs
        gate_defs history_defs)
  have n: "window ?n = - 3" by (simp add: breaker_defs)
  from clear_frame [of tripped_half_breaker] clear_frame [of ?n] w n show ?thesis by simp
qed

subsection \<open>C8: the range of the success rate\<close>

text \<open>
  C8 as stated fails. The constructor checks no option: with \<open>window: 0\<close> it returns a
  breaker whose history is \<open>[0]\<close>, and \<open>successRate\<close> on it divides 0 by 0: the result
  is \<open>NaN\<close>, not a value in the interval from 0 to 1.
\<close>

theorem zero_window_counterexample:
  "window zero_window_breaker = 0 \<and> history zero_window_breaker = [Finite 0]
   \<and> successRate zero_window_breaker = Undefined"
  by (simp add: zero_window_breaker_def breaker_defs successRate_def)

text \<open>
  C8, amended. For every breaker constructed with a positive \<open>window\<close> and every sequence
  of events on it, \<open>successRate\<close> is a fraction between 0 and 1: the divisor is
  \<open>window\<close>. The constructor accepts every \<open>window\<close>; for a window that is zero or
  negative the rate of the new breaker is 0 divided by 0.
\<close>

theorem successRate_range:
  "(0 < window (new_CircuitBreaker nm opts) \<longrightarrow>
      (\<exists>q. successRate (run es (new_CircuitBreaker nm opts)) = Ratio q \<and> 0 \<le> q \<and> q \<le> 1))
   \<and> (window (new_CircuitBreaker nm opts) \<le> 0 \<longrightarrow>
      successRate (new_CircuitBreaker nm opts) = Undefined)"
proof (intro conjI impI)
  let ?b0 = "new_CircuitBreaker nm opts"
  assume pos: "0 < window ?b0"
  from run_invariant [OF new_history_ok [OF pos] pos, of es]
  have "history_ok (window (run es ?b0)) (history (run es ?b0))" "0 < window (run es ?b0)"
    using pos by simp_all
  then show "\<exists>q. successRate (run es ?b0) = Ratio q \<and> 0 \<le> q \<and> q \<le> 1"
    by (rule successRate_ok)
next
  assume "window (new_CircuitBreaker nm opts) \<le> 0"
  then show "successRate (new_CircuitBreaker nm opts) = Undefined"
    by (simp add: new_CircuitBreaker_def clear_def successRate_def)
qed

theorem successRate_range_witness:
  "0 < window (half_breaker ''test'')
   \<and> successRate (run (fail_call 0 0 1 @ fail_call 2 2 3) (half_breaker ''test'')) = Ratio (3 / 5)
   \<and> (\<exists>q. successRate (run (fail_call 0 0 1 @ fail_call 2 2 3) (half_breaker ''test'')) = Ratio q
          \<and> 0 \<le> q \<and> q \<le> 1)
   \<and> window (new_CircuitBreaker ''test'' (no_options\<lparr>opt_window := Some (- 3)\<rparr>)) \<le> 0
   \<and> successRate (new_CircuitBreaker ''test'' (no_options\<lparr>opt_window := Some (- 3)\<rparr>)) = Undefined"
proof -
  let ?o = "no_options\<lparr>opt_tripRate := Some (1 / 2), opt_window := Some 5\<rparr>"
  let ?n = "no_options\<lparr>opt_window := Some (- 3)\<rparr>"
  have w: "0 < window (new_CircuitBreaker ''test'' ?o)" by (simp add: breaker_defs)
  have n: "window (new_CircuitBreaker ''test'' ?n) \<le> 0" by (simp add: breaker_defs)
  have r: "successRate (run (fail_call 0 0 1 @ fail_call 2 2 3) (half_breaker ''test'')) = Ratio (3 / 5)"
    by (simp add: fail_call_def half_breaker_def breaker_defs gate_defs history_defs)
  from successRate_range [of "''test''" ?o "fail_call 0 0 1 @ fail_call 2 2 3"]
    successRate_range [of "''test''" ?n "[]"] w n r
  show ?thesis unfolding half_breaker_def by blast
qed

subsection \<open>C9: admission in Probation\<close>

text \<open>
  C9 as stated fails. In \<open>probing_breaker\<close> the mode is Probation and the probe call
  admitted at time 50 is in flight. A further call at time 51 is admitted all the same
  (its operation is invoked) and the mode is still Probation: \<open>check\<close> refuses calls in
  the mode Tripped only.
\<close>

theorem second_probe_counterexample:
  "mode probing_breaker = Probation \<and> concurrent probing_breaker = 1
   \<and> fst (do_start 51 51 probing_breaker) = None
   \<and> mode (snd (do_start 51 51 probing_breaker)) = Probation
   \<and> snd (snd (do_call 51 51 52 throwing_op (probing_breaker, 0))) = 1"
  by (simp add: probing_breaker_def tripped_breaker_def throwing_op_def breaker_defs call_defs
      addResult_def)

text \<open>
  C9, amended. While the breaker is in Probation every call that arrives is admitted, as
  long as it does not push the in-flight count above \<open>maxConcurrent\<close>: the call start
  only increments the counter and leaves the mode Probation, whatever the clock reads,
  so any number of calls started in a row are all admitted. (The mode leaves Probation
  when an outcome is recorded, see C3, or when the ceiling is exceeded, see C4.)
\<close>

theorem probation_admits:
  assumes "mode b = Probation" and "concurrent b + int (length ts) \<le> maxConcurrent b"
  shows "(ts \<noteq> [] \<longrightarrow> (\<forall>t t'. do_start t t' b = (None, b\<lparr>concurrent := concurrent b + 1\<rparr>)))
       \<and> run (map (\<lambda>(t, t'). Start t t') ts) b = b\<lparr>concurrent := concurrent b + int (length ts)\<rparr>"
proof -
  have one: "do_start t t' c = (None, c\<lparr>concurrent := concurrent c + 1\<rparr>)"
    if "mode c = Probation" "concurrent c + 1 \<le> maxConcurrent c" for t t' c
    using that by (simp add: gate_defs Let_def)
  have many: "run (map (\<lambda>(t, t'). Start t t') ts) b
                = b\<lparr>concurrent := concurrent b + int (length ts)\<rparr>"
    using assms
  proof (induction ts arbitrary: b)
    case Nil
    show ?case by simp
  next
    case (Cons p ts)
    obtain t t' where p: "p = (t, t')" by (cases p)
    let ?c = "b\<lparr>concurrent := concurrent b + 1\<rparr>"
    from Cons.prems have s: "do_start t t' b = (None, ?c)" by (intro one) simp_all
    from Cons.prems
    have "run (map (\<lambda>(t, t'). Start t t') ts) ?c
            = ?c\<lparr>concurrent := concurrent ?c + int (length ts)\<rparr>"
      by (intro Cons.IH) simp_all
    then show ?case by (simp add: p s add.assoc)
  qed
  have "do_start t t' b = (None, b\<lparr>concurrent := concurrent b + 1\<rparr>)" if "ts \<noteq> []" for t t'
    using that assms by (intro one) (cases ts; simp)+
  with many show ?thesis by blast
qed

theorem probation_admits_witness:
  "mode tripped_breaker = Tripped \<and> mode (run [Start 50 50] tripped_breaker) = Probation
   \<and> mode probing_breaker = Probation
   \<and> concurrent probing_breaker + int (length [(51 :: int, 51 :: int)]) \<le> maxConcurrent probing_breaker
   \<and> do_start 51 51 probing_breaker = (None, probing_breaker\<lparr>concurrent := 2\<rparr>)
   \<and> run (map (\<lambda>(t, t'). Start t t') [(51, 51)]) probing_breaker
       = probing_breaker\<lparr>concurrent := 2\<rparr>"
proof -
  have p: "mode tripped_breaker = Tripped" "mode (run [Start 50 50] tripped_breaker) = Probation"
    "mode probing_breaker = Probation" "concurrent probing_breaker = 1"
    "maxConcurrent probing_breaker = 2"
    by (simp_all add: probing_breaker_def tripped_breaker_def breaker_defs gate_defs)
  have h: "concurrent probing_breaker + int (length [(51 :: int, 51 :: int)])
             \<le> maxConcurrent probing_breaker"
    by (simp add: p)
  from probation_admits [OF p(3) h] p h show ?thesis by simp
qed

subsection \<open>C10: outcomes in the mode Tripped\<close>

text \<open>
  C10 as stated fails in its remark that only an admission check can leave the mode
  Tripped: \<open>clear\<close> takes a Tripped breaker to Normal, as the test "trips after 50%
  failures" does at line 55.
\<close>

theorem clear_leaves_tripped_counterexample:
  "mode tripped_half_breaker = Tripped
   \<and> mode (apply_event Clear tripped_half_breaker) = Normal
   \<and> apply_event Clear tripped_half_breaker = clear tripped_half_breaker"
  by (simp add: tripped_half_breaker_def fail_call_def half_breaker_def breaker_defs
      gate_defs history_defs)

text \<open>
  C10, amended. An outcome recorded while the mode is Tripped leaves the mode Tripped. A
  success also leaves the trip time unchanged. A failure whose updated success rate is
  below \<open>tripRate\<close> calls \<open>trip\<close> again and so sets the trip time to the current time;
  any other failure leaves the trip time unchanged. Of all events, only an admission
  check (\<open>check\<close> itself or the start of a call, which runs it) and the manual \<open>clear\<close>
  can leave the mode Tripped.
\<close>

theorem tripped_outcome:
  assumes "mode b = Tripped"
  shows "mode (addResult now 1 b) = Tripped \<and> lastCheck (addResult now 1 b) = lastCheck b
       \<and> mode (addResult now (- 1) b) = Tripped
       \<and> lastCheck (addResult now (- 1) b)
          = (if quotient_lt (successRate (addResult now (- 1) b)) (tripRate b) then now
             else lastCheck b)
       \<and> mode (apply_event (Settle now ok) b) = Tripped
       \<and> (mode (apply_event ev b) \<noteq> Tripped \<longrightarrow>
            ev = Clear \<or> (\<exists>t t'. ev = Start t t' \<or> ev = Check t))"
proof -
  have settle: "mode (apply_event (Settle t r) b) = Tripped" for t r
    using assms by (simp add: addResult_def trip_def Let_def finishedConcurrent_def)
  have "ev = Clear \<or> (\<exists>t t'. ev = Start t t' \<or> ev = Check t)"
    if "mode (apply_event ev b) \<noteq> Tripped"
    using that settle by (cases ev) (simp_all add: trip_def)
  moreover have "mode (addResult now 1 b) = Tripped \<and> lastCheck (addResult now 1 b) = lastCheck b
       \<and> mode (addResult now (- 1) b) = Tripped
       \<and> lastCheck (addResult now (- 1) b)
          = (if quotient_lt (successRate (addResult now (- 1) b)) (tripRate b) then now
             else lastCheck b)"
    using assms by (simp add: addResult_def trip_def Let_def successRate_def)
  ultimately show ?thesis using settle by blast
qed

theorem tripped_outcome_witness:
  "mode tripped_half_breaker = Tripped \<and> lastCheck tripped_half_breaker = 6
   \<and> concurrent tripped_half_breaker = 1
   \<and> mode (addResult 20 1 tripped_half_breaker) = Tripped
   \<and> lastCheck (addResult 20 1 tripped_half_breaker) = 6
   \<and> successRate (addResult 20 (- 1) tripped_half_breaker) = Ratio (1 / 5)
   \<and> mode (addResult 20 (- 1) tripped_half_breaker) = Tripped
   \<and> lastCheck (addResult 20 (- 1) tripped_half_breaker) = 20
   \<and> mode (apply_event (Check 30006) tripped_half_breaker) \<noteq> Tripped"
proof -
  have t: "mode tripped_half_breaker = Tripped" "lastCheck tripped_half_breaker = 6"
    "concurrent tripped_half_breaker = 1" "tripRate tripped_half_breaker = 1 / 2"
    by (simp_all add: tripped_half_breaker_def fail_call_def half_breaker_def breaker_defs
        gate_defs history_defs)
  have r: "successRate (addResult 20 (- 1) tripped_half_breaker) = Ratio (1 / 5)"
    by (simp add: tripped_half_breaker_def fail_call_def half_breaker_def breaker_defs
        gate_defs history_defs)
  have c: "mode (apply_event (Check 30006) tripped_half_breaker) \<noteq> Tripped"
    by (simp add: tripped_half_breaker_def fail_call_def half_breaker_def breaker_defs
        gate_defs history_defs)
  from tripped_outcome [OF t(1), of 20 True "Check 30006"] t r c show ?thesis by simp
qed

end
